theory Spec2Isabelle
  imports Main "HOL-Library.Sublist" "HOL-Library.List_Lexorder" "HOL-Library.Multiset"
begin

section \<open>Python strings\<close>

text \<open>
  A Python \<open>str\<close> is a sequence of Unicode code points; a code point is modelled as a
  natural number and a string as the list of its code points, so that \<open>length\<close> counts
  what Python's \<open>len\<close> counts. \<open>ustr\<close> reads an ASCII literal.
\<close>

type_synonym ustring = "nat list"

fun ustr :: "string \<Rightarrow> ustring" where
  "ustr [] = []"
| "ustr (c # cs) = of_char c # ustr cs"

declare ustr.simps [simp del]

text \<open>
  The white space of \<open>str.strip()\<close>, \<open>str.isspace()\<close> and of \<open>\s\<close> in a \<open>str\<close>
  pattern of \<open>re\<close>: the code points U+0009..U+000D, U+001C..U+0020, U+0085, U+00A0,
  U+1680, U+2000..U+200A, U+2028, U+2029, U+202F, U+205F and U+3000.
\<close>

definition isspace :: "nat \<Rightarrow> bool" where
  "isspace c = (c \<in> set [9, 10, 11, 12, 13, 28, 29, 30, 31, 32, 133, 160, 5760,
      8192, 8193, 8194, 8195, 8196, 8197, 8198, 8199, 8200, 8201, 8202,
      8232, 8233, 8239, 8287, 12288])"

text \<open>\<open>s.replace(a, b)\<close> for single characters \<open>a\<close> and \<open>b\<close>.\<close>

definition replace_char :: "nat \<Rightarrow> nat \<Rightarrow> ustring \<Rightarrow> ustring" where
  "replace_char a b s = map (\<lambda>c. if c = a then b else c) s"

text \<open>\<open>re.sub(r"\s+", " ", s)\<close>: every maximal run of white space becomes one space.\<close>

function sub_spaces :: "ustring \<Rightarrow> ustring" where
  "sub_spaces [] = []"
| "sub_spaces (c # cs) =
     (if isspace c then 32 # sub_spaces (dropWhile isspace cs) else c # sub_spaces cs)"
  by pat_completeness auto
termination
  by (relation "measure length") (auto simp: length_dropWhile_le less_Suc_eq_le)

text \<open>\<open>s.strip()\<close>, \<open>s.rstrip(":")\<close> and \<open>s.replace(c, "")\<close>.\<close>

definition strip :: "ustring \<Rightarrow> ustring" where
  "strip s = rev (dropWhile isspace (rev (dropWhile isspace s)))"

definition rstrip_char :: "nat \<Rightarrow> ustring \<Rightarrow> ustring" where
  "rstrip_char a s = rev (dropWhile (\<lambda>c. c = a) (rev s))"

definition remove_char :: "nat \<Rightarrow> ustring \<Rightarrow> ustring" where
  "remove_char a s = filter (\<lambda>c. c \<noteq> a) s"

text \<open>
  \<open>s.split(sep)\<close> for a non-empty separator: the occurrences of \<open>sep\<close> are found from
  the left and do not overlap; \<open>cur\<close> is the piece read so far. (Python raises
  \<open>ValueError\<close> for an empty separator; the program splits at two constants only.)
\<close>

fun split_from :: "ustring \<Rightarrow> ustring \<Rightarrow> ustring \<Rightarrow> ustring list" where
  "split_from sep cur [] = [cur]"
| "split_from sep cur (c # cs) =
     (if prefix sep (c # cs) then cur # split_from sep [] (drop (length sep - 1) cs)
      else split_from sep (cur @ [c]) cs)"

definition split :: "ustring \<Rightarrow> ustring \<Rightarrow> ustring list" where
  "split sep s = split_from sep [] s"

text \<open>\<open>sep.join(xs)\<close>.\<close>

fun join :: "ustring \<Rightarrow> ustring list \<Rightarrow> ustring" where
  "join sep [] = []"
| "join sep [x] = x"
| "join sep (x # y # ys) = x @ sep @ join sep (y # ys)"

text \<open>
  A string is borderless when none of its proper non-empty prefixes is also a suffix of
  it: two occurrences of such a string cannot overlap.
\<close>

definition borderless :: "ustring \<Rightarrow> bool" where
  "borderless t = list_all (\<lambda>k. take k t \<noteq> drop (length t - k) t) [1..<length t]"

section \<open>Text Normalizer\<close>

text \<open>\<open>_norm_spaces\<close> of \<open>scraper_core.py\<close> (an Isabelle name starts with a letter).\<close>

definition norm_spaces :: "ustring \<Rightarrow> ustring" where
  "norm_spaces s = strip (sub_spaces (replace_char 160 32 s))"

text \<open>Predicates on strings used in the statements below.\<close>

fun starts_space :: "ustring \<Rightarrow> bool" where
  "starts_space [] = False"
| "starts_space (c # cs) = isspace c"

fun adjacent_spaces :: "ustring \<Rightarrow> bool" where
  "adjacent_spaces (a # b # cs) = ((isspace a \<and> isspace b) \<or> adjacent_spaces (b # cs))"
| "adjacent_spaces cs = False"

section \<open>Markup\<close>

text \<open>
  A node of the parsed document: a text node, a comment, or an element with its tag
  name, the tokens of its \<open>class\<close> attribute and its children.
\<close>

datatype node = Text ustring | Comment ustring | Tag ustring "ustring list" "node list"

text \<open>
  The strings below a node, in document order; comments are not among the strings
  \<open>get_text\<close> reads. \<open>get_text\<close> is \<open>get_text("", strip=False)\<close> and
  \<open>get_text_strip\<close> is \<open>get_text(strip=True)\<close>, which strips every string and leaves
  the empty ones out.
\<close>

fun strings :: "node \<Rightarrow> ustring list" where
  "strings (Text s) = [s]"
| "strings (Comment s) = []"
| "strings (Tag n cl cs) = concat (map strings cs)"

definition get_text :: "node \<Rightarrow> ustring" where
  "get_text n = concat (strings n)"

definition get_text_strip :: "node \<Rightarrow> ustring" where
  "get_text_strip n = concat (filter (\<lambda>s. s \<noteq> []) (map strip (strings n)))"

section \<open>Cell Line Splitter\<close>

definition TOKEN :: ustring where
  "TOKEN = ustr ''<<<BR>>>''"

text \<open>
  \<open>br.replace_with(TOKEN)\<close> for every \<open>br\<close> found below the cell: a \<open>br\<close> element
  becomes the text node \<open>TOKEN\<close>. \<open>find_all\<close> looks below the cell, not at the cell.
\<close>

fun replace_br :: "node \<Rightarrow> node" where
  "replace_br (Tag n cl cs) =
     (if n = ustr ''br'' then Text TOKEN else Tag n cl (map replace_br cs))"
| "replace_br (Text s) = Text s"
| "replace_br (Comment s) = Comment s"

fun replace_brs_below :: "node \<Rightarrow> node" where
  "replace_brs_below (Tag n cl cs) = Tag n cl (map replace_br cs)"
| "replace_brs_below (Text s) = Text s"
| "replace_brs_below (Comment s) = Comment s"

definition lines_from_td_br_only :: "node \<Rightarrow> ustring list" where
  "lines_from_td_br_only td =
     (let raw = get_text (replace_brs_below td);
          parts = map norm_spaces (split TOKEN raw)
      in filter (\<lambda>p. p \<noteq> []) parts)"

text \<open>
  The specification's reading of a cell, for comparison: the pieces of text between
  the line-break elements. \<open>glue\<close> puts two runs of pieces side by side, the last piece
  of the first run continuing into the first piece of the second.
\<close>

fun glue :: "ustring list \<Rightarrow> ustring list \<Rightarrow> ustring list" where
  "glue [] ys = ys"
| "glue [x] [] = [x]"
| "glue [x] (y # ys) = (x @ y) # ys"
| "glue (x # x' # xs) ys = x # glue (x' # xs) ys"

fun br_pieces :: "node \<Rightarrow> ustring list" where
  "br_pieces (Text s) = [s]"
| "br_pieces (Comment s) = [[]]"
| "br_pieces (Tag n cl cs) =
     (if n = ustr ''br'' then [[], []] else foldr glue (map br_pieces cs) [[]])"

fun cell_pieces :: "node \<Rightarrow> ustring list" where
  "cell_pieces (Tag n cl cs) = foldr glue (map br_pieces cs) [[]]"
| "cell_pieces (Text s) = [s]"
| "cell_pieces (Comment s) = [[]]"

definition spec_lines :: "node \<Rightarrow> ustring list" where
  "spec_lines td = filter (\<lambda>p. p \<noteq> []) (map norm_spaces (cell_pieces td))"

section \<open>Dictionaries\<close>

text \<open>
  A Python \<open>dict\<close> keeps its keys in the order of their first insertion, and the
  program depends on that order: a dictionary is modelled as the list of its items,
  with no key twice. \<open>dict_set d k v\<close> is \<open>d[k] = v\<close>: a key that is present keeps
  its place and takes the new value, a new key goes to the end. \<open>dict_get d k x\<close> is
  \<open>d.get(k, x)\<close> and \<open>map_of d k\<close> is the lookup that may find nothing.
\<close>

type_synonym ('k, 'v) dict = "('k \<times> 'v) list"

fun dict_set :: "('k, 'v) dict \<Rightarrow> 'k \<Rightarrow> 'v \<Rightarrow> ('k, 'v) dict" where
  "dict_set [] k v = [(k, v)]"
| "dict_set ((k', v') # d) k v =
     (if k' = k then (k, v) # d else (k', v') # dict_set d k v)"

definition keys :: "('k, 'v) dict \<Rightarrow> 'k list" where
  "keys d = map fst d"

definition dict_get :: "('k, 'v) dict \<Rightarrow> 'k \<Rightarrow> 'v \<Rightarrow> 'v" where
  "dict_get d k x = (case map_of d k of Some v \<Rightarrow> v | None \<Rightarrow> x)"

section \<open>Configuration\<close>

text \<open>The constants of \<open>config.py\<close> that the parsers read.\<close>

definition PERSON_ORDER_DEFAULT :: "ustring list" where
  "PERSON_ORDER_DEFAULT =
     [ustr ''io'', ustr ''tu'', ustr ''lui, lei, Lei, egli'', ustr ''noi'', ustr ''voi'',
      ustr ''loro, Loro, essi'']"

definition PERSON_ORDER_IMPERATIVE :: "ustring list" where
  "PERSON_ORDER_IMPERATIVE =
     [ustr '''', ustr ''(tu)'', ustr ''(Lei)'', ustr ''(noi)'', ustr ''(voi)'', ustr ''(Loro)'']"

section \<open>Canonical order of the persons\<close>

text \<open>
  \<open>_ordered_tense_map\<close>: first the canonical labels that the tense has, in the
  canonical order, then every item whose key is not yet in the result.
\<close>

definition desired_order :: "ustring \<Rightarrow> ustring list" where
  "desired_order mood =
     (if mood = ustr ''imperativo'' then PERSON_ORDER_IMPERATIVE else PERSON_ORDER_DEFAULT)"

definition ordered_tense_map ::
  "(ustring, ustring) dict \<Rightarrow> ustring \<Rightarrow> ustring \<Rightarrow> (ustring, ustring) dict" where
  "ordered_tense_map tense_map mood tense =
     (let desired = desired_order mood;
          ordered = foldl (\<lambda>od k. case map_of tense_map k of
                                      Some v \<Rightarrow> dict_set od k v
                                    | None \<Rightarrow> od) [] desired
      in foldl (\<lambda>od (k, v). if k \<notin> set (keys od) then dict_set od k v else od)
           ordered tense_map)"

section \<open>The document as the parsers see it\<close>

text \<open>
  The parsers reach into the document through the queries of the markup library
  (\<open>find\<close>, \<open>find_all\<close>). The library is not part of the program: the document is
  modelled by the answers to the queries the parsers make, each at the moment it is
  made. \<open>find\<close> answers an element or nothing, \<open>find_all\<close> a list of elements. The
  text of the elements found is read by the functions above. The parsers edit the
  document in place (\<open>replace_with\<close>, \<open>extract\<close>); an answer is what the library
  gives on the document as it is when the query is made.

  \<^item> \<open>tds\<close>: \<open>first_tr.find_all("td")\<close>; \<open>first_tr\<close>: \<open>table.find("tr")\<close>;
    \<open>conjtable\<close>: \<open>soup.find("table", id="conjtable")\<close>; \<open>h3\<close>: \<open>soup.find("h3")\<close>.
  \<^item> \<open>th_col\<close>: \<open>header_tr.find("th", attrs={"scope": "col"})\<close>; \<open>header_tr\<close>:
    \<open>table.find("tr")\<close>; \<open>body_trs\<close>: \<open>table.find_all("tr")[1:]\<close>, with
    \<open>th_row\<close>: \<open>tr.find("th", attrs={"scope": "row"})\<close> and \<open>td_cell\<close>:
    \<open>tr.find("td")\<close>.
  \<^item> \<open>mood_h4\<close>: \<open>section.find("h4")\<close>; \<open>neoConj\<close>:
    \<open>section.find_all("table", class_="neoConj")\<close>; \<open>aa_sections\<close>:
    \<open>soup.find_all("div", class_="aa")\<close>.
\<close>

record summary_row =
  tds :: "node list"

record summary_table =
  first_tr :: "summary_row option"

record header_row =
  th_col :: "node option"

record body_row =
  th_row :: "node option"
  td_cell :: "node option"

record conj_table =
  header_tr :: "header_row option"
  body_trs :: "body_row list"

record mood_section =
  mood_h4 :: "node option"
  neoConj :: "conj_table list"

record soup =
  h3 :: "node option"
  conjtable :: "summary_table option"
  aa_sections :: "mood_section list"

section \<open>Principal-Forms Parser\<close>

text \<open>The returned \<open>{"model": ..., "forms": ...}\<close>.\<close>

record principal =
  header_model :: "ustring option"
  header_forms :: "(ustring, ustring) dict"

text \<open>
  \<open>str.lower\<close> belongs to the Python runtime and follows the Unicode tables; the
  functions that call it take it as the parameter \<open>lower\<close>. \<open>ascii_lower\<close> is its
  restriction to ASCII, for the examples.
\<close>

definition ascii_lower :: "ustring \<Rightarrow> ustring" where
  "ascii_lower s = map (\<lambda>c. if 65 \<le> c \<and> c \<le> 90 then c + 32 else c) s"

text \<open>
  One turn of \<open>for i, lbl in enumerate(labels)\<close>: the value at the same index, or the
  empty string past the end of the values; U+21D2 is the arrow glyph.
\<close>

definition form_value :: "ustring list \<Rightarrow> nat \<Rightarrow> ustring \<Rightarrow> ustring" where
  "form_value values i lbl =
     (let val = (if i < length values then values ! i else [])
      in if lbl = ustr ''forma pronominale'' then strip (remove_char 8658 val) else val)"


definition parse_principal_forms :: "(ustring \<Rightarrow> ustring) \<Rightarrow> soup \<Rightarrow> principal" where
  "parse_principal_forms lower sp =
     (let out = \<lparr>header_model = (case h3 sp of None \<Rightarrow> None | Some h \<Rightarrow> Some (get_text_strip h)),
                 header_forms = []\<rparr>
      in case conjtable sp of
           None \<Rightarrow> out
         | Some table \<Rightarrow>
             (case first_tr table of
                None \<Rightarrow> out
              | Some tr \<Rightarrow>
                  (case tds tr of
                     [] \<Rightarrow> out
                   | label_td # others \<Rightarrow>
                       (let labels = map (\<lambda>lbl. rstrip_char 58 (lower lbl))
                                       (lines_from_td_br_only label_td);
                            values = (case others of
                                        [] \<Rightarrow> []
                                      | values_td # _ \<Rightarrow> lines_from_td_br_only values_td)
                        in out\<lparr>header_forms :=
                             foldl (\<lambda>fs (i, lbl). dict_set fs lbl (form_value values i lbl))
                               [] (enumerate 0 labels)\<rparr>))))"

section \<open>Conjugation-Table Parser\<close>

type_synonym tense_map = "(ustring, ustring) dict"
type_synonym conjugations = "(ustring, (ustring, tense_map) dict) dict"

text \<open>
  \<open>span.extract()\<close> for every \<open>span\<close> of class \<open>arrow\<close> below the column header: the
  spans leave the header before its text is read.
\<close>

fun is_arrow_span :: "node \<Rightarrow> bool" where
  "is_arrow_span (Tag n cl cs) = (n = ustr ''span'' \<and> ustr ''arrow'' \<in> set cl)"
| "is_arrow_span (Text s) = False"
| "is_arrow_span (Comment s) = False"

fun extract_arrows :: "node \<Rightarrow> node" where
  "extract_arrows (Tag n cl cs) =
     Tag n cl (map extract_arrows (filter (\<lambda>c. \<not> is_arrow_span c) cs))"
| "extract_arrows (Text s) = Text s"
| "extract_arrows (Comment s) = Comment s"

text \<open>The tense name of a table; \<open>"?"\<close> when no header text is found.\<close>

definition tense_of :: "(ustring \<Rightarrow> ustring) \<Rightarrow> conj_table \<Rightarrow> ustring" where
  "tense_of lower table =
     (let tense = (case header_tr table of
                     None \<Rightarrow> None
                   | Some tr \<Rightarrow>
                       (case th_col tr of
                          None \<Rightarrow> None
                        | Some th \<Rightarrow> Some (lower (get_text_strip (extract_arrows th)))))
      in case tense of None \<Rightarrow> ustr ''?'' | Some t \<Rightarrow> if t = [] then ustr ''?'' else t)"

text \<open>The rows of a table: a row without a row header or without a cell is skipped.\<close>

definition tense_map_of :: "conj_table \<Rightarrow> tense_map" where
  "tense_map_of table =
     foldl (\<lambda>tm tr. case (th_row tr, td_cell tr) of
                       (Some th, Some cell) \<Rightarrow>
                         dict_set tm (get_text_strip th) (norm_spaces (get_text cell))
                     | _ \<Rightarrow> tm) [] (body_trs table)"

text \<open>\<open>result[mood][tense] = v\<close>, for a mood that is a key of \<open>result\<close>.\<close>

definition set_tense :: "conjugations \<Rightarrow> ustring \<Rightarrow> ustring \<Rightarrow> tense_map \<Rightarrow> conjugations" where
  "set_tense result mood tense v = dict_set result mood (dict_set (dict_get result mood []) tense v)"

definition parse_section :: "(ustring \<Rightarrow> ustring) \<Rightarrow> conjugations \<Rightarrow> mood_section \<Rightarrow> conjugations" where
  "parse_section lower result section =
     (case mood_h4 section of
        None \<Rightarrow> result
      | Some h4 \<Rightarrow>
          (let mood = lower (get_text_strip h4);
               result1 = (if mood \<notin> set (keys result) then dict_set result mood [] else result)
           in foldl (\<lambda>res table.
                       set_tense res mood (tense_of lower table)
                         (ordered_tense_map (tense_map_of table) mood (tense_of lower table)))
                result1 (neoConj section)))"

definition parse_conjugations :: "(ustring \<Rightarrow> ustring) \<Rightarrow> soup \<Rightarrow> conjugations" where
  "parse_conjugations lower sp = foldl (parse_section lower) [] (aa_sections sp)"

text \<open>
  For comparison: the tables in the order in which the parser reads them, each with
  its mood, its tense name and the mapping read from its rows.
\<close>

definition tables_read :: "(ustring \<Rightarrow> ustring) \<Rightarrow> soup \<Rightarrow> (ustring \<times> ustring \<times> tense_map) list" where
  "tables_read lower sp =
     concat (map (\<lambda>section. case mood_h4 section of
                    None \<Rightarrow> []
                  | Some h4 \<Rightarrow> map (\<lambda>table. (lower (get_text_strip h4), tense_of lower table,
                                             tense_map_of table)) (neoConj section))
               (aa_sections sp))"

text \<open>
  The tables of one section as read, and the step that stores a table read into the
  result.
\<close>

definition section_tables :: "(ustring \<Rightarrow> ustring) \<Rightarrow> mood_section \<Rightarrow> (ustring \<times> ustring \<times> tense_map) list" where
  "section_tables lower section =
     (case mood_h4 section of
        None \<Rightarrow> []
      | Some h4 \<Rightarrow> map (\<lambda>table. (lower (get_text_strip h4), tense_of lower table,
                                 tense_map_of table)) (neoConj section))"

definition store_table :: "conjugations \<Rightarrow> ustring \<times> ustring \<times> tense_map \<Rightarrow> conjugations" where
  "store_table res x = (case x of (m, t, tm) \<Rightarrow> set_tense res m t (ordered_tense_map tm m t))"

definition last_table :: "(ustring \<times> ustring \<times> tense_map) list \<Rightarrow> ustring \<Rightarrow> ustring \<Rightarrow> tense_map option" where
  "last_table ts mood tense =
     (let found = filter (\<lambda>(m, t, tm). m = mood \<and> t = tense) ts
      in if found = [] then None else Some (snd (snd (last found))))"

definition lookup_tense :: "conjugations \<Rightarrow> ustring \<Rightarrow> ustring \<Rightarrow> tense_map option" where
  "lookup_tense c mood tense =
     (case map_of c mood of None \<Rightarrow> None | Some tenses \<Rightarrow> map_of tenses tense)"

section \<open>Auxiliary Inferencer\<close>

text \<open>\<open>s.startswith((p1, p2, ...))\<close>.\<close>

definition startswith :: "ustring \<Rightarrow> ustring list \<Rightarrow> bool" where
  "startswith s ps = list_ex (\<lambda>p. prefix p s) ps"

text \<open>The prefixes; U+00F2 is the letter o with grave.\<close>

definition ESSERE_PREFIXES :: "ustring list" where
  "ESSERE_PREFIXES = [ustr ''sono '', ustr ''ero '', ustr ''sar'' @ [242, 32]]"

definition AVERE_PREFIXES :: "ustring list" where
  "AVERE_PREFIXES = [ustr ''ho '', ustr ''avevo '', ustr ''avr'' @ [242, 32]]"

definition detect_auxiliary :: "(ustring \<Rightarrow> ustring) \<Rightarrow> conjugations \<Rightarrow> ustring option" where
  "detect_auxiliary lower conjugations =
     (let pp = dict_get (dict_get conjugations (ustr ''tempi composti'') [])
                 (ustr ''passato prossimo'') [];
          io_pp = lower (dict_get pp (ustr ''io'') [])
      in if startswith io_pp ESSERE_PREFIXES then Some (ustr ''essere'')
         else if startswith io_pp AVERE_PREFIXES then Some (ustr ''avere'')
         else None)"

text \<open>
  For comparison: the value at
  \<open>table["tempi composti"]["passato prossimo"]["io"]\<close>, if every key of the path is
  there, and whether its lower-cased form starts with one of the prefixes.
\<close>

definition io_form :: "conjugations \<Rightarrow> ustring option" where
  "io_form c =
     (case map_of c (ustr ''tempi composti'') of
        None \<Rightarrow> None
      | Some tenses \<Rightarrow>
          (case map_of tenses (ustr ''passato prossimo'') of
             None \<Rightarrow> None
           | Some persons \<Rightarrow> map_of persons (ustr ''io'')))"

definition io_starts :: "(ustring \<Rightarrow> ustring) \<Rightarrow> conjugations \<Rightarrow> ustring list \<Rightarrow> bool" where
  "io_starts lower c ps =
     (case io_form c of None \<Rightarrow> False | Some v \<Rightarrow> startswith (lower v) ps)"

section \<open>Errors and effects\<close>

text \<open>
  The exceptions the program raises or lets through, with their messages.
  \<open>RequestException\<close> stands for \<open>requests.RequestException\<close> and its subclasses;
  \<open>TypeError\<close> is what \<open>raise None\<close> gives.
\<close>

datatype error =
    ValueError ustring
  | RequestException ustring
  | AssertionError ustring
  | TypeError ustring

text \<open>
  The outside world is a trace of what the program did to it: a request for a URL with
  its timeout, a sleep of some seconds, a line on standard error. The network is a
  parameter: its answer to the \<open>n\<close>-th request of the run, for the URL asked, is either
  the body of a response (\<open>raise_for_status\<close> found nothing to raise) or a
  \<open>RequestException\<close> with its message.
\<close>

datatype event = Get ustring nat | Sleep nat | Stderr ustring

datatype response = Body ustring | Failure ustring

type_synonym world = "event list"
type_synonym network = "nat \<Rightarrow> ustring \<Rightarrow> response"

fun is_get :: "event \<Rightarrow> bool" where
  "is_get (Get u t) = True"
| "is_get (Sleep n) = False"
| "is_get (Stderr s) = False"

definition requests_made :: "world \<Rightarrow> nat" where
  "requests_made w = length (filter is_get w)"

fun sleeps :: "world \<Rightarrow> nat list" where
  "sleeps [] = []"
| "sleeps (Sleep n # w) = n # sleeps w"
| "sleeps (Get u t # w) = sleeps w"
| "sleeps (Stderr s # w) = sleeps w"

section \<open>URL\<close>

definition BASE :: ustring where
  "BASE = ustr ''https://www.wordreference.com/conj/itverbs.aspx''"

text \<open>
  \<open>build_url\<close>; \<open>urlencode({'v': verb})\<close> is \<open>v=\<close> followed by the verb as
  \<open>quote_plus\<close> of \<open>urllib\<close> writes it, which is a parameter.
\<close>

definition build_url :: "(ustring \<Rightarrow> ustring) \<Rightarrow> ustring \<Rightarrow> error + ustring" where
  "build_url quote_plus verb =
     (let verb = strip verb
      in if verb = [] then Inl (ValueError (ustr ''Empty verb provided.''))
         else Inr (BASE @ ustr ''?'' @ ustr ''v='' @ quote_plus verb))"

section \<open>Document Fetcher\<close>

text \<open>
  \<open>fetch_html\<close>: the loop \<open>for attempt in range(1, tries + 1)\<close>, from \<open>attempt\<close> on,
  with the last error caught so far, and \<open>raise last_err\<close> after it. The sleep is
  \<open>1.0 * attempt\<close> seconds, a whole number.
\<close>

function fetch_attempts ::
  "network \<Rightarrow> ustring \<Rightarrow> nat \<Rightarrow> int \<Rightarrow> int \<Rightarrow> ustring option \<Rightarrow> world \<Rightarrow> (error + ustring) \<times> world" where
  "fetch_attempts net url timeout tries attempt last_err w =
     (if attempt > tries then
        (case last_err of
           None \<Rightarrow> (Inl (TypeError (ustr ''exceptions must derive from BaseException'')), w)
         | Some e \<Rightarrow> (Inl (RequestException e), w))
      else
        (case net (requests_made w) url of
           Body text \<Rightarrow> (Inr text, w @ [Get url timeout])
         | Failure e \<Rightarrow>
             fetch_attempts net url timeout tries (attempt + 1) (Some e)
               (if attempt < tries then w @ [Get url timeout, Sleep (nat attempt)]
                else w @ [Get url timeout])))"
  by pat_completeness auto
termination
  by (relation "measure (\<lambda>(net, url, timeout, tries, attempt, last_err, w). nat (tries + 1 - attempt))")
    auto

declare fetch_attempts.simps [simp del]

definition fetch_html :: "network \<Rightarrow> ustring \<Rightarrow> nat \<Rightarrow> int \<Rightarrow> world \<Rightarrow> (error + ustring) \<times> world" where
  "fetch_html net url timeout tries w = fetch_attempts net url timeout tries 1 None w"

text \<open>The defaults of \<open>fetch_html\<close>: \<open>timeout = 20.0\<close> and \<open>tries = 2\<close>.\<close>

definition fetch_html_default :: "network \<Rightarrow> ustring \<Rightarrow> world \<Rightarrow> (error + ustring) \<times> world" where
  "fetch_html_default net url w = fetch_html net url 20 2 w"

section \<open>Structural Validator\<close>

text \<open>
  \<open>EXPECTED\<close> of \<open>config.py\<close>, in the order in which it is written; the sets of tenses
  are listed (the program only sorts their differences). \<open>STRICT_CHECKS\<close> is the
  configured value; the validator takes the setting as a parameter.
\<close>

definition EXPECTED :: "(ustring \<times> ustring list) list" where
  "EXPECTED =
     [(ustr ''indicativo'',
        [ustr ''presente'', ustr ''imperfetto'', ustr ''passato remoto'', ustr ''futuro semplice'']),
      (ustr ''tempi composti'',
        [ustr ''passato prossimo'', ustr ''trapassato prossimo'', ustr ''trapassato remoto'',
         ustr ''futuro anteriore'']),
      (ustr ''congiuntivo'',
        [ustr ''presente'', ustr ''imperfetto'', ustr ''passato'', ustr ''trapassato'']),
      (ustr ''condizionale'', [ustr ''presente'', ustr ''passato'']),
      (ustr ''imperativo'', [ustr ''presente''])]"

definition STRICT_CHECKS :: bool where
  "STRICT_CHECKS = False"

text \<open>The messages gathered in \<open>missing\<close>.\<close>

definition missing_messages :: "conjugations \<Rightarrow> ustring list" where
  "missing_messages c =
     foldl (\<lambda>missing (mood, tenses).
              if mood \<notin> set (keys c) then missing @ [ustr ''Missing mood: '' @ mood]
              else (let got = set (keys (dict_get c mood []));
                        diff = filter (\<lambda>t. t \<notin> got) tenses
                    in if diff \<noteq> [] then
                         missing @ [ustr ''Missing tense(s) in '' @ mood @ ustr '': '' @
                                    join (ustr '', '') (sort diff)]
                       else missing))
       [] EXPECTED"

text \<open>
  For comparison: the messages one entry of \<open>EXPECTED\<close> gives rise to, and whether a
  table has every expected mood and, in every expected mood, every expected tense.
\<close>

definition mood_messages :: "conjugations \<Rightarrow> ustring \<times> ustring list \<Rightarrow> ustring list" where
  "mood_messages c x =
     (case x of (mood, tenses) \<Rightarrow>
        if mood \<notin> set (keys c) then [ustr ''Missing mood: '' @ mood]
        else if filter (\<lambda>t. t \<notin> set (keys (dict_get c mood []))) tenses \<noteq> []
        then [ustr ''Missing tense(s) in '' @ mood @ ustr '': '' @
              join (ustr '', '')
                (sort (filter (\<lambda>t. t \<notin> set (keys (dict_get c mood []))) tenses))]
        else [])"

definition covers_expected :: "conjugations \<Rightarrow> bool" where
  "covers_expected c =
     list_all (\<lambda>(mood, tenses). mood \<in> set (keys c) \<and>
                 list_all (\<lambda>t. t \<in> set (keys (dict_get c mood []))) tenses) EXPECTED"

definition check_expected :: "bool \<Rightarrow> conjugations \<Rightarrow> world \<Rightarrow> (error + unit) \<times> world" where
  "check_expected strict c w =
     (let missing = missing_messages c
      in if missing \<noteq> [] then
           (let msg = join (ustr '' | '') missing
            in if strict then (Inl (AssertionError msg), w)
               else (Inr (), w @ [Stderr (ustr ''[WARN] '' @ msg)]))
         else (Inr (), w))"

section \<open>Scrape Orchestrator\<close>

text \<open>The returned dictionary, with its six keys.\<close>

record scrape_result =
  queried :: ustring
  url :: ustring
  model :: "ustring option"
  principal_forms :: "(ustring, ustring) dict"
  auxiliary :: "ustring option"
  conjugations :: conjugations

text \<open>
  What the orchestrator takes from outside the program: \<open>str.lower\<close>, \<open>quote_plus\<close>,
  the parser behind \<open>BeautifulSoup(html, "lxml")\<close> with the answers to the queries on
  the parsed document, the network, and the setting of \<open>STRICT_CHECKS\<close>.
\<close>

record runtime =
  str_lower :: "ustring \<Rightarrow> ustring"
  quote_plus :: "ustring \<Rightarrow> ustring"
  beautiful_soup :: "ustring \<Rightarrow> soup"
  net :: network
  strict_checks :: bool

definition scrape_conjugations :: "runtime \<Rightarrow> ustring \<Rightarrow> world \<Rightarrow> (error + scrape_result) \<times> world" where
  "scrape_conjugations rt verb w =
     (case build_url (quote_plus rt) verb of
        Inl e \<Rightarrow> (Inl e, w)
      | Inr u \<Rightarrow>
          (case fetch_html_default (net rt) u w of
             (Inl e, w1) \<Rightarrow> (Inl e, w1)
           | (Inr html, w1) \<Rightarrow>
               (let sp = beautiful_soup rt html;
                    header = parse_principal_forms (str_lower rt) sp;
                    conjugations = parse_conjugations (str_lower rt) sp;
                    auxiliary = detect_auxiliary (str_lower rt) conjugations
                in case check_expected (strict_checks rt) conjugations w1 of
                     (Inl e, w2) \<Rightarrow> (Inl e, w2)
                   | (Inr ok, w2) \<Rightarrow>
                       (Inr \<lparr>queried = verb, url = u, model = header_model header,
                             principal_forms = header_forms header, auxiliary = auxiliary,
                             conjugations = conjugations\<rparr>, w2))))"

text \<open>
  The result put together from a verb, its URL and the fetched markup: what the
  orchestrator returns when nothing fails.
\<close>

definition assemble :: "runtime \<Rightarrow> ustring \<Rightarrow> ustring \<Rightarrow> ustring \<Rightarrow> scrape_result" where
  "assemble rt verb u html =
     \<lparr>queried = verb, url = u,
      model = header_model (parse_principal_forms (str_lower rt) (beautiful_soup rt html)),
      principal_forms = header_forms (parse_principal_forms (str_lower rt) (beautiful_soup rt html)),
      auxiliary = detect_auxiliary (str_lower rt)
                    (parse_conjugations (str_lower rt) (beautiful_soup rt html)),
      conjugations = parse_conjugations (str_lower rt) (beautiful_soup rt html)\<rparr>"

section \<open>Narrowing\<close>
















section \<open>Example documents\<close>





text \<open>
  A page with the one mood \<open>indicativo\<close>, its one tense \<open>presente\<close> and the one
  person \<open>io\<close> with the form \<open>parlo\<close>; and a runtime in which every request is
  answered and every answer parses to that page.
\<close>

definition parlo_page :: soup where
  "parlo_page =
     \<lparr>h3 = None, conjtable = None, aa_sections =
       [\<lparr>mood_h4 = Some (Tag (ustr ''h4'') [] [Text (ustr ''Indicativo'')]),
         neoConj =
          [\<lparr>header_tr = Some \<lparr>th_col = Some (Tag (ustr ''th'') [] [Text (ustr ''presente'')])\<rparr>,
            body_trs =
             [\<lparr>th_row = Some (Tag (ustr ''th'') [] [Text (ustr ''io'')]),
               td_cell = Some (Tag (ustr ''td'') [] [Text (ustr ''parlo'')])\<rparr>]\<rparr>]\<rparr>]\<rparr>"

definition parlare_runtime :: "bool \<Rightarrow> runtime" where
  "parlare_runtime strict =
     \<lparr>str_lower = ascii_lower, quote_plus = (\<lambda>v. v), beautiful_soup = (\<lambda>html. parlo_page),
      net = (\<lambda>n u. Body (ustr ''<html></html>'')), strict_checks = strict\<rparr>"

section \<open>Literals\<close>

lemma ustr_eq_iff [simp]: "ustr s = ustr t \<longleftrightarrow> s = t"
proof (induction s arbitrary: t)
  case Nil
  then show ?case by (cases t) (auto simp: ustr.simps)
next
  case (Cons c s)
  then show ?case by (cases t) (auto simp: ustr.simps)
qed

lemma ustr_Nil_iff [simp]: "ustr s = [] \<longleftrightarrow> s = []"
  by (cases s) (auto simp: ustr.simps)

section \<open>Properties of the Text Normalizer\<close>

lemma starts_space_dropWhile: "\<not> starts_space (dropWhile isspace s)"
  by (induction s) auto

lemma starts_space_sub_spaces: "starts_space (sub_spaces s) = starts_space s"
  by (cases s) (auto simp: isspace_def)

lemma adjacent_sub_spaces: "\<not> adjacent_spaces (sub_spaces s)"
proof (induction s rule: sub_spaces.induct)
  case 1
  show ?case by simp
next
  case (2 c cs)
  show ?case
  proof (cases "isspace c")
    case True
    have "\<not> starts_space (sub_spaces (dropWhile isspace cs))"
      by (simp add: starts_space_sub_spaces starts_space_dropWhile)
    with True 2 show ?thesis
      by (cases "sub_spaces (dropWhile isspace cs)") auto
  next
    case False
    with 2 show ?thesis
      by (cases "sub_spaces cs") auto
  qed
qed

lemma adjacent_spaces_appendR: "adjacent_spaces ys \<Longrightarrow> adjacent_spaces (xs @ ys)"
proof (induction xs)
  case Nil
  then show ?case by simp
next
  case (Cons x xs)
  then show ?case by (cases "xs @ ys") auto
qed

lemma adjacent_spaces_appendL: "adjacent_spaces xs \<Longrightarrow> adjacent_spaces (xs @ ys)"
  by (induction xs rule: adjacent_spaces.induct) auto

lemma adjacent_spaces_strip: "adjacent_spaces (strip s) \<Longrightarrow> adjacent_spaces s"
proof -
  assume a: "adjacent_spaces (strip s)"
  let ?d = "dropWhile isspace s"
  have "?d = strip s @ rev (takeWhile isspace (rev ?d))"
    unfolding strip_def by (metis rev_append rev_rev_ident takeWhile_dropWhile_id)
  with a have "adjacent_spaces ?d"
    by (metis adjacent_spaces_appendL)
  then have "adjacent_spaces (takeWhile isspace s @ ?d)"
    by (rule adjacent_spaces_appendR)
  then show ?thesis by simp
qed

lemma starts_space_strip: "\<not> starts_space (strip s)"
proof -
  let ?d = "dropWhile isspace s"
  have d: "?d = strip s @ rev (takeWhile isspace (rev ?d))"
    unfolding strip_def by (metis rev_append rev_rev_ident takeWhile_dropWhile_id)
  show ?thesis
  proof (cases "strip s")
    case Nil
    then show ?thesis by simp
  next
    case (Cons a as)
    with d have "?d = a # (as @ rev (takeWhile isspace (rev ?d)))" by simp
    then have "\<not> isspace a" by (metis hd_dropWhile list.sel(1) list.distinct(1))
    with Cons show ?thesis by simp
  qed
qed

lemma ends_space_strip: "\<not> starts_space (rev (strip s))"
  by (simp add: strip_def starts_space_dropWhile)

lemma set_sub_spaces: "set (sub_spaces s) \<subseteq> insert 32 (set s)"
proof (induction s rule: sub_spaces.induct)
  case 1
  show ?case by simp
next
  case (2 c cs)
  have "set (dropWhile isspace cs) \<subseteq> set cs" by (simp add: set_dropWhileD subsetI)
  with 2 show ?case by auto
qed

lemma length_sub_spaces: "length (sub_spaces s) \<le> length s"
proof (induction s rule: sub_spaces.induct)
  case 1
  show ?case by simp
next
  case (2 c cs)
  have "length (dropWhile isspace cs) \<le> length cs" by (rule length_dropWhile_le)
  with 2 show ?case by auto
qed

lemma length_strip: "length (strip s) \<le> length s"
  unfolding strip_def
  by (metis length_dropWhile_le length_rev le_trans)

lemma set_strip: "set (strip s) \<subseteq> set s"
  unfolding strip_def
  by (metis set_dropWhileD set_rev subsetI)

text \<open>
  Claim C4. For every string \<open>s\<close>, \<open>_norm_spaces s\<close> is defined (the model has no
  error branch), contains no non-breaking space (U+00A0), has no two white-space
  characters side by side, neither starts nor ends with white space, and is no longer
  than \<open>s\<close>; the empty string is mapped to the empty string.
\<close>

theorem norm_spaces_normal:
  "160 \<notin> set (norm_spaces s) \<and> \<not> adjacent_spaces (norm_spaces s) \<and>
   \<not> starts_space (norm_spaces s) \<and> \<not> starts_space (rev (norm_spaces s)) \<and>
   length (norm_spaces s) \<le> length s \<and> norm_spaces [] = []"
proof -
  have "set (norm_spaces s) \<subseteq> insert 32 (set (replace_char 160 32 s))"
    unfolding norm_spaces_def using set_strip set_sub_spaces by blast
  moreover have "160 \<notin> set (replace_char 160 32 s)"
    by (auto simp: replace_char_def)
  ultimately have 1: "160 \<notin> set (norm_spaces s)" by auto
  have 2: "\<not> adjacent_spaces (norm_spaces s)"
    unfolding norm_spaces_def using adjacent_spaces_strip adjacent_sub_spaces by blast
  have 3: "\<not> starts_space (norm_spaces s)" "\<not> starts_space (rev (norm_spaces s))"
    unfolding norm_spaces_def by (rule starts_space_strip, rule ends_space_strip)
  have "length (norm_spaces s) \<le> length (replace_char 160 32 s)"
    unfolding norm_spaces_def using length_strip length_sub_spaces le_trans by blast
  then have 4: "length (norm_spaces s) \<le> length s" by (simp add: replace_char_def)
  have 5: "norm_spaces [] = []" by (simp add: norm_spaces_def strip_def replace_char_def)
  from 1 2 3 4 5 show ?thesis by blast
qed

section \<open>Splitting a joined list\<close>


lemma glue_not_Nil: "ys \<noteq> [] \<Longrightarrow> glue xs ys \<noteq> []"
  by (induction xs ys rule: glue.induct) auto

lemma join_glue: "xs \<noteq> [] \<Longrightarrow> ys \<noteq> [] \<Longrightarrow> join t (glue xs ys) = join t xs @ join t ys"
proof (induction xs ys rule: glue.induct)
  case (3 x y ys)
  then show ?case by (cases ys) auto
next
  case (4 x x' xs ys)
  then have "glue (x' # xs) ys \<noteq> []" by (simp add: glue_not_Nil)
  then obtain z zs where "glue (x' # xs) ys = z # zs" by (cases "glue (x' # xs) ys") auto
  with 4 show ?case by auto
qed auto

lemma no_border:
  assumes b: "borderless t" and x: "x \<noteq> []" "length x < length t" and p: "prefix x t" and s: "suffix x t"
  shows False
proof -
  let ?k = "length x"
  from p have 1: "take ?k t = x" by (auto simp: prefix_def)
  from s have 2: "drop (length t - ?k) t = x" by (auto simp: suffix_def)
  from x have "?k \<in> set [1..<length t]" by (cases x) auto
  with b have "take ?k t \<noteq> drop (length t - ?k) t"
    unfolding borderless_def list_all_iff by blast
  with 1 2 show False by simp
qed

lemma prefix_sublist_append: "prefix t x \<Longrightarrow> sublist t (a @ x)"
  unfolding prefix_def sublist_def by blast

lemma no_early_match:
  assumes b: "borderless t" and n: "\<not> sublist t (a @ c # cs)"
  shows "\<not> prefix t (c # cs @ t @ rest)"
proof
  assume p: "prefix t (c # cs @ t @ rest)"
  show False
  proof (cases "length t \<le> length (c # cs)")
    case True
    with p have "prefix t (c # cs)"
      by (metis append_Cons prefix_length_prefix prefix_order.dual_order.refl prefixI append.assoc)
    then have "sublist t (a @ c # cs)"
      by (rule prefix_sublist_append)
    with n show False by simp
  next
    case False
    then have l: "length (c # cs) < length t" by simp
    have "prefix (c # cs) (c # cs @ t @ rest)" by simp
    with p l have "prefix (c # cs) t"
      by (metis prefix_length_prefix less_imp_le_nat)
    then obtain t' where t': "t = (c # cs) @ t'" by (auto simp: prefix_def)
    with p have "prefix t' (t @ rest)" by simp
    moreover from t' have lt: "length t' < length t" by simp
    ultimately have "prefix t' t"
      by (metis prefix_length_prefix less_imp_le_nat prefixI)
    moreover from t' have "suffix t' t" by (auto simp: suffix_def)
    moreover from l t' have "t' \<noteq> []" by auto
    ultimately show False using no_border[OF b _ lt] by blast
  qed
qed

lemma split_from_piece:
  assumes b: "borderless t" and t: "t \<noteq> []"
  shows "\<not> sublist t (a @ p) \<Longrightarrow> split_from t cur (p @ t @ rest) = (cur @ p) # split_from t [] rest"
proof (induction p arbitrary: a cur)
  case Nil
  from t obtain c cs where c: "t = c # cs" by (cases t) auto
  then show ?case by simp
next
  case (Cons c p)
  have "\<not> prefix t (c # p @ t @ rest)"
    using no_early_match[OF b Cons.prems] .
  moreover have "\<not> sublist t ((a @ [c]) @ p)" using Cons.prems by simp
  then have "split_from t (cur @ [c]) (p @ t @ rest) = ((cur @ [c]) @ p) # split_from t [] rest"
    by (rule Cons.IH)
  ultimately show ?case by simp
qed

lemma split_from_last:
  "\<not> sublist t (a @ p) \<Longrightarrow> t \<noteq> [] \<Longrightarrow> split_from t cur p = [cur @ p]"
proof (induction p arbitrary: a cur)
  case Nil
  then show ?case by simp
next
  case (Cons c p)
  have "\<not> prefix t (c # p)"
    using Cons.prems(1) prefix_sublist_append by blast
  moreover have "\<not> sublist t ((a @ [c]) @ p)" using Cons.prems by simp
  then have "split_from t (cur @ [c]) p = [(cur @ [c]) @ p]"
    using Cons.prems(2) by (rule Cons.IH)
  ultimately show ?case by simp
qed

lemma split_join:
  assumes b: "borderless t" and t: "t \<noteq> []"
  shows "ps \<noteq> [] \<Longrightarrow> list_all (\<lambda>p. \<not> sublist t p) ps \<Longrightarrow> split t (join t ps) = ps"
proof (induction ps)
  case Nil
  then show ?case by simp
next
  case (Cons x ps)
  then have x: "\<not> sublist t ([] @ x)" by simp
  show ?case
  proof (cases ps)
    case Nil
    from x have "split_from t [] x = [[] @ x]" using t by (rule split_from_last)
    with Nil show ?thesis by (simp add: split_def)
  next
    case (Cons y ys)
    from x have "split_from t [] (x @ t @ join t (y # ys)) = ([] @ x) # split_from t [] (join t (y # ys))"
      by (rule split_from_piece[OF b t])
    with Cons Cons.IH Cons.prems show ?thesis by (simp add: split_def)
  qed
qed


section \<open>Properties of the Cell Line Splitter\<close>

lemma concat_concat_map: "concat (concat (map f xs)) = concat (map (\<lambda>x. concat (f x)) xs)"
  by (induction xs) auto

lemma br_pieces_not_Nil: "br_pieces n \<noteq> []"
proof (cases n)
  case (Tag nm cl cs)
  have "foldr glue (map br_pieces cs) [[]] \<noteq> []"
    by (induction cs) (auto simp: glue_not_Nil)
  with Tag show ?thesis by simp
qed auto

lemma foldr_glue_not_Nil: "foldr glue xss [[]] \<noteq> []"
  by (induction xss) (auto simp: glue_not_Nil)

lemma join_foldr_glue:
  "list_all (\<lambda>xs. xs \<noteq> []) xss \<Longrightarrow> join t (foldr glue xss [[]]) = concat (map (join t) xss)"
  by (induction xss) (auto simp: join_glue foldr_glue_not_Nil)

lemma get_text_replace_br: "get_text (replace_br n) = join TOKEN (br_pieces n)"
proof (induction n)
  case (Tag nm cl cs)
  show ?case
  proof (cases "nm = ustr ''br''")
    case True
    then show ?thesis by (simp add: get_text_def)
  next
    case False
    have "list_all (\<lambda>xs. xs \<noteq> []) (map br_pieces cs)"
      by (simp add: list_all_iff br_pieces_not_Nil)
    then have "join TOKEN (foldr glue (map br_pieces cs) [[]]) = concat (map (join TOKEN) (map br_pieces cs))"
      by (rule join_foldr_glue)
    also have "\<dots> = concat (map (\<lambda>c. get_text (replace_br c)) cs)"
      using Tag by (simp add: comp_def cong: map_cong)
    finally show ?thesis using False by (simp add: get_text_def comp_def concat_concat_map)
  qed
qed (auto simp: get_text_def)

lemma get_text_replace_brs_below: "get_text (replace_brs_below td) = join TOKEN (cell_pieces td)"
proof (cases td)
  case (Tag nm cl cs)
  have "list_all (\<lambda>xs. xs \<noteq> []) (map br_pieces cs)"
    by (simp add: list_all_iff br_pieces_not_Nil)
  then have "join TOKEN (foldr glue (map br_pieces cs) [[]]) = concat (map (join TOKEN) (map br_pieces cs))"
    by (rule join_foldr_glue)
  also have "\<dots> = concat (map (\<lambda>c. get_text (replace_br c)) cs)"
    by (simp add: comp_def get_text_replace_br)
  finally show ?thesis using Tag by (simp add: get_text_def comp_def concat_concat_map)
qed (auto simp: get_text_def)

lemma cell_pieces_not_Nil: "cell_pieces td \<noteq> []"
  by (cases td) (auto simp: foldr_glue_not_Nil)

lemma borderless_TOKEN: "borderless TOKEN"
  by (simp add: borderless_def TOKEN_def ustr.simps upt_rec[of _ 8] upt_rec[of _ "Suc _"])

text \<open>
  Where no piece of text between two line breaks contains the sentinel, the splitter
  returns the normalized non-empty pieces: it splits at the \<open>br\<close> elements and
  nowhere else.
\<close>

lemma lines_from_td_br_only_spec:
  assumes "list_all (\<lambda>p. \<not> sublist TOKEN p) (cell_pieces td)"
  shows "lines_from_td_br_only td = spec_lines td"
proof -
  have "TOKEN \<noteq> []" by (simp add: TOKEN_def ustr.simps)
  with borderless_TOKEN cell_pieces_not_Nil assms
  have "split TOKEN (join TOKEN (cell_pieces td)) = cell_pieces td"
    by (metis split_join)
  then show ?thesis
    by (simp add: lines_from_td_br_only_def spec_lines_def get_text_replace_brs_below)
qed

text \<open>
  Replacing the line breaks a second time changes nothing: a cell whose line breaks have
  been replaced already (it lies inside a cell read before) gives the same lines.
\<close>

lemma replace_br_idem: "replace_br (replace_br n) = replace_br n"
  by (induction n) auto

lemma lines_from_td_br_only_idem:
  "lines_from_td_br_only (replace_brs_below td) = lines_from_td_br_only td"
  by (cases td) (simp_all add: lines_from_td_br_only_def replace_br_idem comp_def)

text \<open>The example of the docstring: inline elements do not split the line.\<close>

lemma lines_from_td_br_only_ho_messo:
  "lines_from_td_br_only (Tag (ustr ''td'') []
     [Text (ustr ''ho ''), Tag (ustr ''b'') [] [Text (ustr ''mess'')],
      Tag (ustr ''b'') [] [Text (ustr ''o'')]]) = [ustr ''ho messo'']"
  by (simp add: lines_from_td_br_only_def get_text_def split_def TOKEN_def norm_spaces_def
      strip_def replace_char_def isspace_def ustr.simps)

text \<open>
  Claim C1. The splitter is to split a cell at its line-break elements and nowhere
  else. A cell without any line-break element whose text is \<open>a<<<BR>>>b\<close> is one
  logical line, but the splitter returns the two lines \<open>a\<close> and \<open>b\<close>: the text
  itself holds the sentinel the splitter puts in the place of a line break.
\<close>

theorem lines_from_td_br_only_sentinel_text:
  "lines_from_td_br_only (Tag (ustr ''td'') [] [Text (ustr ''a<<<BR>>>b'')])
     = [ustr ''a'', ustr ''b''] \<and>
   spec_lines (Tag (ustr ''td'') [] [Text (ustr ''a<<<BR>>>b'')]) = [ustr ''a<<<BR>>>b'']"
  by (simp add: lines_from_td_br_only_def spec_lines_def get_text_def split_def TOKEN_def
      norm_spaces_def strip_def replace_char_def isspace_def ustr.simps)

section \<open>Properties of dictionaries\<close>




section \<open>Properties of the canonical order\<close>

lemma dict_set_new: "k \<notin> set (keys d) \<Longrightarrow> dict_set d k v = d @ [(k, v)]"
  by (induction d) (auto simp: keys_def)

lemma first_loop:
  "distinct ks \<Longrightarrow> set ks \<inter> set (keys acc) = {} \<Longrightarrow>
   foldl (\<lambda>od k. case map_of tm k of Some v \<Rightarrow> dict_set od k v | None \<Rightarrow> od) acc ks
     = acc @ map (\<lambda>k. (k, the (map_of tm k))) (filter (\<lambda>k. k \<in> set (keys tm)) ks)"
proof (induction ks arbitrary: acc)
  case Nil
  then show ?case by simp
next
  case (Cons k ks)
  show ?case
  proof (cases "map_of tm k")
    case None
    then have "k \<notin> set (keys tm)" by (simp add: keys_def map_of_eq_None_iff)
    with None Cons show ?thesis by simp
  next
    case (Some v)
    then have in_tm: "k \<in> set (keys tm)" by (metis keys_def map_of_eq_None_iff option.distinct(1) set_map)
    from Cons.prems have new: "k \<notin> set (keys acc)" by auto
    from Cons.prems have "set ks \<inter> set (keys (acc @ [(k, v)])) = {}" by (auto simp: keys_def)
    with Cons have "foldl (\<lambda>od k. case map_of tm k of Some v \<Rightarrow> dict_set od k v | None \<Rightarrow> od) (acc @ [(k, v)]) ks
       = (acc @ [(k, v)]) @ map (\<lambda>k. (k, the (map_of tm k))) (filter (\<lambda>k. k \<in> set (keys tm)) ks)"
      by simp
    with Some in_tm new show ?thesis by (simp add: dict_set_new)
  qed
qed

lemma second_loop:
  "distinct (keys tm) \<Longrightarrow>
   foldl (\<lambda>od (k, v). if k \<notin> set (keys od) then dict_set od k v else od) acc tm
     = acc @ filter (\<lambda>(k, v). k \<notin> set (keys acc)) tm"
proof (induction tm arbitrary: acc)
  case Nil
  then show ?case by simp
next
  case (Cons p tm)
  obtain k v where p: "p = (k, v)" by (cases p)
  from Cons.prems p have d: "distinct (keys tm)" and k: "k \<notin> set (keys tm)"
    by (auto simp: keys_def)
  show ?case
  proof (cases "k \<in> set (keys acc)")
    case True
    with p Cons.IH[OF d] show ?thesis by simp
  next
    case False
    from k have "filter (\<lambda>(k', v'). k' \<notin> set (keys (acc @ [(k, v)]))) tm = filter (\<lambda>(k', v'). k' \<notin> set (keys acc)) tm"
      by (intro filter_cong) (force simp: keys_def)+
    with False p Cons.IH[OF d, of "acc @ [(k, v)]"] show ?thesis
      by (simp add: dict_set_new)
  qed
qed

lemma distinct_desired_order: "distinct (desired_order mood)"
  by (simp add: desired_order_def PERSON_ORDER_DEFAULT_def PERSON_ORDER_IMPERATIVE_def ustr.simps)

lemma ordered_tense_map_eq:
  assumes "distinct (keys tm)"
  shows "ordered_tense_map tm mood tense =
     map (\<lambda>k. (k, the (map_of tm k))) (filter (\<lambda>k. k \<in> set (keys tm)) (desired_order mood))
     @ filter (\<lambda>(k, v). k \<notin> set (desired_order mood)) tm"
proof -
  let ?A = "map (\<lambda>k. (k, the (map_of tm k))) (filter (\<lambda>k. k \<in> set (keys tm)) (desired_order mood))"
  have 1: "foldl (\<lambda>od k. case map_of tm k of Some v \<Rightarrow> dict_set od k v | None \<Rightarrow> od) [] (desired_order mood) = [] @ ?A"
    by (rule first_loop) (simp_all add: distinct_desired_order keys_def)
  have "filter (\<lambda>(k, v). k \<notin> set (keys ?A)) tm = filter (\<lambda>(k, v). k \<notin> set (desired_order mood)) tm"
    by (intro filter_cong) (force simp: keys_def)+
  with 1 second_loop[OF assms, of ?A] show ?thesis
    by (simp add: ordered_tense_map_def Let_def)
qed


lemma map_of_the_mem:
  "distinct (keys tm) \<Longrightarrow> (k, v) \<in> set tm \<Longrightarrow> the (map_of tm k) = v"
  by (simp add: keys_def)

lemma canonical_part_mset:
  assumes d: "distinct (keys tm)" and dk: "distinct ks"
  shows "mset (map (\<lambda>k. (k, the (map_of tm k))) (filter (\<lambda>k. k \<in> set (keys tm)) ks))
       = mset (filter (\<lambda>(k, v). k \<in> set ks) tm)"
proof -
  let ?A = "map (\<lambda>k. (k, the (map_of tm k))) (filter (\<lambda>k. k \<in> set (keys tm)) ks)"
  let ?B = "filter (\<lambda>(k, v). k \<in> set ks) tm"
  from d have dtm: "distinct tm" by (simp add: keys_def distinct_map)
  have dA: "distinct ?A" using dk by (simp add: distinct_map inj_on_def)
  have dB: "distinct ?B" using dtm by simp
  have "set ?A = set ?B"
  proof (intro set_eqI iffI)
    fix p assume "p \<in> set ?A"
    then obtain k where k: "p = (k, the (map_of tm k))" "k \<in> set ks" "k \<in> set (keys tm)" by auto
    then obtain v where v: "(k, v) \<in> set tm" by (auto simp: keys_def)
    with d have "the (map_of tm k) = v" by (rule map_of_the_mem)
    with k v show "p \<in> set ?B" by simp
  next
    fix p assume "p \<in> set ?B"
    then obtain k v where k: "p = (k, v)" "(k, v) \<in> set tm" "k \<in> set ks" by auto
    with d have "the (map_of tm k) = v" by (simp add: map_of_the_mem)
    moreover from k have "k \<in> set (keys tm)" by (force simp: keys_def)
    ultimately show "p \<in> set ?A" using k by force
  qed
  with dA dB show ?thesis using set_eq_iff_mset_eq_distinct by blast
qed

text \<open>
  Claim C2. For every person-to-form mapping of a tense (a dictionary: no key twice),
  the reordered mapping has the same items as the input, none dropped and none
  altered. Its keys are the labels of the canonical list that the data has, in the
  canonical order, followed by the remaining labels in the order of the input. The
  canonical list is \<open>PERSON_ORDER_IMPERATIVE\<close> for the mood \<open>imperativo\<close> and
  \<open>PERSON_ORDER_DEFAULT\<close> for every other mood, and has six entries.
\<close>

theorem ordered_tense_map_permutation:
  assumes "distinct (keys tense_map)"
  shows "mset (ordered_tense_map tense_map mood tense) = mset tense_map \<and>
     keys (ordered_tense_map tense_map mood tense) =
       filter (\<lambda>k. k \<in> set (keys tense_map)) (desired_order mood) @
       filter (\<lambda>k. k \<notin> set (desired_order mood)) (keys tense_map) \<and>
     desired_order mood =
       (if mood = ustr ''imperativo'' then PERSON_ORDER_IMPERATIVE else PERSON_ORDER_DEFAULT) \<and>
     length (desired_order mood) = 6"
proof -
  let ?P = "\<lambda>(k, v). k \<in> set (desired_order mood)"
  have "(\<lambda>(k, v). k \<notin> set (desired_order mood)) = (\<lambda>p. \<not> ?P p)" by auto
  then have "mset (ordered_tense_map tense_map mood tense)
      = mset (filter ?P tense_map) + mset (filter (\<lambda>p. \<not> ?P p) tense_map)"
    using canonical_part_mset[OF assms distinct_desired_order]
    by (simp add: ordered_tense_map_eq[OF assms])
  then have 1: "mset (ordered_tense_map tense_map mood tense) = mset tense_map"
    by simp
  have "map fst (filter (\<lambda>(k, v). k \<notin> set (desired_order mood)) tense_map)
      = filter (\<lambda>k. k \<notin> set (desired_order mood)) (map fst tense_map)"
    by (induction tense_map) auto
  then have 2: "keys (ordered_tense_map tense_map mood tense) =
       filter (\<lambda>k. k \<in> set (keys tense_map)) (desired_order mood) @
       filter (\<lambda>k. k \<notin> set (desired_order mood)) (keys tense_map)"
    by (simp add: ordered_tense_map_eq[OF assms] keys_def comp_def)
  have 3: "length (desired_order mood) = 6"
    by (simp add: desired_order_def PERSON_ORDER_DEFAULT_def PERSON_ORDER_IMPERATIVE_def ustr.simps)
  from 1 2 3 show ?thesis by (simp add: desired_order_def)
qed

text \<open>
  The example of the claim: for the mood \<open>indicativo\<close> and persons read in the order
  voi, io, tu, the keys come out as io, tu, voi.
\<close>

theorem ordered_tense_map_indicativo:
  "distinct (keys [(ustr ''voi'', ustr ''parlate''), (ustr ''io'', ustr ''parlo''),
                   (ustr ''tu'', ustr ''parli'')]) \<and>
   keys (ordered_tense_map [(ustr ''voi'', ustr ''parlate''), (ustr ''io'', ustr ''parlo''),
                   (ustr ''tu'', ustr ''parli'')] (ustr ''indicativo'') (ustr ''presente''))
     = [ustr ''io'', ustr ''tu'', ustr ''voi''] \<and>
   mset (ordered_tense_map [(ustr ''voi'', ustr ''parlate''), (ustr ''io'', ustr ''parlo''),
                   (ustr ''tu'', ustr ''parli'')] (ustr ''indicativo'') (ustr ''presente''))
     = mset [(ustr ''voi'', ustr ''parlate''), (ustr ''io'', ustr ''parlo''),
                   (ustr ''tu'', ustr ''parli'')]"
proof -
  let ?tm = "[(ustr ''voi'', ustr ''parlate''), (ustr ''io'', ustr ''parlo''),
                   (ustr ''tu'', ustr ''parli'')]"
  have d: "distinct (keys ?tm)" by (simp add: keys_def ustr.simps)
  from ordered_tense_map_permutation[OF d, of "ustr ''indicativo''" "ustr ''presente''"]
  have "mset (ordered_tense_map ?tm (ustr ''indicativo'') (ustr ''presente'')) = mset ?tm"
    and "keys (ordered_tense_map ?tm (ustr ''indicativo'') (ustr ''presente'')) =
       filter (\<lambda>k. k \<in> set (keys ?tm)) (desired_order (ustr ''indicativo'')) @
       filter (\<lambda>k. k \<notin> set (desired_order (ustr ''indicativo''))) (keys ?tm)"
    by blast+
  moreover have "filter (\<lambda>k. k \<in> set (keys ?tm)) (desired_order (ustr ''indicativo'')) @
       filter (\<lambda>k. k \<notin> set (desired_order (ustr ''indicativo''))) (keys ?tm)
       = [ustr ''io'', ustr ''tu'', ustr ''voi'']"
    by (simp add: keys_def desired_order_def PERSON_ORDER_DEFAULT_def ustr.simps)
  ultimately show ?thesis using d by simp
qed

section \<open>Properties of the Auxiliary Inferencer\<close>

lemma essere_not_avere:
  "startswith s ESSERE_PREFIXES \<Longrightarrow> \<not> startswith s AVERE_PREFIXES"
  by (auto simp: startswith_def ESSERE_PREFIXES_def AVERE_PREFIXES_def prefix_def ustr.simps)

lemma io_pp_eq:
  "dict_get (dict_get (dict_get c (ustr ''tempi composti'') []) (ustr ''passato prossimo'') [])
     (ustr ''io'') [] = (case io_form c of None \<Rightarrow> [] | Some v \<Rightarrow> v)"
  by (simp add: dict_get_def io_form_def split: option.splits)

lemma startswith_Nil: "\<not> startswith [] ESSERE_PREFIXES" "\<not> startswith [] AVERE_PREFIXES"
  by (simp_all add: startswith_def ESSERE_PREFIXES_def AVERE_PREFIXES_def ustr.simps)

lemma detect_auxiliary_io_form:
  "detect_auxiliary lower c =
     (if startswith (lower (case io_form c of None \<Rightarrow> [] | Some v \<Rightarrow> v)) ESSERE_PREFIXES
      then Some (ustr ''essere'')
      else if startswith (lower (case io_form c of None \<Rightarrow> [] | Some v \<Rightarrow> v)) AVERE_PREFIXES
      then Some (ustr ''avere'') else None)"
  by (simp add: detect_auxiliary_def io_pp_eq Let_def)

text \<open>
  Claim C3. For every conjugation table, \<open>_detect_auxiliary\<close> returns \<open>essere\<close> exactly
  when the lower-cased value at
  \<open>table["tempi composti"]["passato prossimo"]["io"]\<close> starts with \<open>sono\<close>, \<open>ero\<close> or
  \<open>sar\<close>+U+00F2 followed by a space, \<open>avere\<close> exactly when it starts with \<open>ho\<close>,
  \<open>avevo\<close> or \<open>avr\<close>+U+00F2 followed by a space, and nothing in every other case;
  when a key of the path is missing it returns nothing (the model has no error
  branch: the lookups are \<open>dict.get\<close> with a default). Of \<open>str.lower\<close> the proof
  uses only that it maps the empty string to itself.
\<close>

theorem detect_auxiliary_iff:
  assumes "lower [] = []"
  shows "(detect_auxiliary lower c = Some (ustr ''essere'')) = io_starts lower c ESSERE_PREFIXES \<and>
     (detect_auxiliary lower c = Some (ustr ''avere'')) = io_starts lower c AVERE_PREFIXES \<and>
     (detect_auxiliary lower c = None) =
        (\<not> io_starts lower c ESSERE_PREFIXES \<and> \<not> io_starts lower c AVERE_PREFIXES) \<and>
     (io_form c = None \<longrightarrow> detect_auxiliary lower c = None)"
proof (cases "io_form c")
  case None
  with assms show ?thesis
    by (simp add: detect_auxiliary_io_form io_starts_def startswith_Nil)
next
  case (Some v)
  then show ?thesis
    using essere_not_avere[of "lower v"]
    by (auto simp: detect_auxiliary_io_form io_starts_def)
qed

text \<open>The examples of the specification.\<close>

theorem detect_auxiliary_sono_andato:
  "ascii_lower [] = [] \<and>
   io_form [(ustr ''indicativo'', [(ustr ''presente'', [(ustr ''io'', ustr ''vado'')])]),
     (ustr ''tempi composti'',
        [(ustr ''passato prossimo'', [(ustr ''io'', ustr ''Sono andato'')])])]
     = Some (ustr ''Sono andato'') \<and>
   detect_auxiliary ascii_lower
     [(ustr ''indicativo'', [(ustr ''presente'', [(ustr ''io'', ustr ''vado'')])]),
      (ustr ''tempi composti'',
        [(ustr ''passato prossimo'', [(ustr ''io'', ustr ''Sono andato'')])])]
     = Some (ustr ''essere'')"
proof -
  let ?c = "[(ustr ''indicativo'', [(ustr ''presente'', [(ustr ''io'', ustr ''vado'')])]),
     (ustr ''tempi composti'',
        [(ustr ''passato prossimo'', [(ustr ''io'', ustr ''Sono andato'')])])]"
  have l: "ascii_lower [] = []" by (simp add: ascii_lower_def)
  have f: "io_form ?c = Some (ustr ''Sono andato'')" by (simp add: io_form_def ustr.simps)
  have "io_starts ascii_lower ?c ESSERE_PREFIXES"
    by (simp add: io_starts_def f) (simp add: startswith_def ESSERE_PREFIXES_def ascii_lower_def ustr.simps)
  with l detect_auxiliary_iff[of ascii_lower ?c] have "detect_auxiliary ascii_lower ?c = Some (ustr ''essere'')"
    by blast
  with l f show ?thesis by blast
qed

lemma detect_auxiliary_examples:
  "detect_auxiliary ascii_lower [(ustr ''tempi composti'',
        [(ustr ''passato prossimo'', [(ustr ''io'', ustr ''ho mangiato'')])])] = Some (ustr ''avere'')"
  "detect_auxiliary ascii_lower [(ustr ''indicativo'', [(ustr ''presente'', [(ustr ''io'', ustr ''parlo'')])])] = None"
  "detect_auxiliary ascii_lower [(ustr ''tempi composti'',
        [(ustr ''passato prossimo'', [(ustr ''io'', ustr ''sar'' @ [242] @ ustr '' andato'')])])] = Some (ustr ''essere'')"
  by (simp_all add: detect_auxiliary_def dict_get_def startswith_def ESSERE_PREFIXES_def AVERE_PREFIXES_def ascii_lower_def ustr.simps)

section \<open>Properties of the Conjugation-Table Parser\<close>

lemma map_of_dict_set: "map_of (dict_set d k v) k' = (if k' = k then Some v else map_of d k')"
  by (induction d) auto

lemma map_of_None_keys: "map_of d k = None \<longleftrightarrow> k \<notin> set (keys d)"
  by (simp add: keys_def map_of_eq_None_iff)

lemma lookup_tense_set_tense:
  "lookup_tense (set_tense res m t v) m' t' =
     (if m' = m \<and> t' = t then Some v else lookup_tense res m' t')"
  by (auto simp: lookup_tense_def set_tense_def map_of_dict_set dict_get_def split: option.splits)

lemma lookup_tense_new_mood:
  "m \<notin> set (keys res) \<Longrightarrow> lookup_tense (dict_set res m []) m' t' = lookup_tense res m' t'"
  by (auto simp: lookup_tense_def map_of_dict_set map_of_None_keys[symmetric])

lemma last_table_Nil: "last_table [] m t = None"
  by (simp add: last_table_def)

lemma last_table_snoc:
  "last_table (ts @ [(m', t', tm)]) m t =
     (if m' = m \<and> t' = t then Some tm else last_table ts m t)"
  by (auto simp: last_table_def Let_def)

lemma last_table_append:
  "last_table (xs @ ys) m t =
     (case last_table ys m t of None \<Rightarrow> last_table xs m t | Some tm \<Rightarrow> Some tm)"
  by (auto simp: last_table_def Let_def)

lemma lookup_tense_foldl:
  "lookup_tense (foldl store_table res ts) m t =
     (case last_table ts m t of
        None \<Rightarrow> lookup_tense res m t
      | Some tm \<Rightarrow> Some (ordered_tense_map tm m t))"
proof (induction ts rule: rev_induct)
  case Nil
  show ?case by (simp add: last_table_Nil)
next
  case (snoc x ts)
  obtain m' t' tm where x: "x = (m', t', tm)" by (cases x)
  with snoc show ?case
    by (simp add: store_table_def lookup_tense_set_tense last_table_snoc)
qed

lemma lookup_tense_parse_section:
  "lookup_tense (parse_section lower res section) m t =
     lookup_tense (foldl store_table res (section_tables lower section)) m t"
proof (cases "mood_h4 section")
  case None
  then show ?thesis by (simp add: parse_section_def section_tables_def)
next
  case (Some h4)
  let ?mood = "lower (get_text_strip h4)"
  let ?res1 = "if ?mood \<notin> set (keys res) then dict_set res ?mood [] else res"
  let ?ts = "map (\<lambda>table. (?mood, tense_of lower table, tense_map_of table)) (neoConj section)"
  have p: "parse_section lower res section = foldl store_table ?res1 ?ts"
    using Some by (simp add: parse_section_def Let_def foldl_map store_table_def)
  have "lookup_tense ?res1 m t = lookup_tense res m t"
    by (simp add: lookup_tense_new_mood)
  then have "lookup_tense (foldl store_table ?res1 ?ts) m t = lookup_tense (foldl store_table res ?ts) m t"
    by (simp only: lookup_tense_foldl)
  with p Some show ?thesis by (simp add: section_tables_def)
qed

lemma lookup_tense_sections:
  "lookup_tense (foldl (parse_section lower) res secs) m t =
     (case last_table (concat (map (section_tables lower) secs)) m t of
        None \<Rightarrow> lookup_tense res m t
      | Some tm \<Rightarrow> Some (ordered_tense_map tm m t))"
proof (induction secs rule: rev_induct)
  case Nil
  show ?case by (simp add: last_table_Nil)
next
  case (snoc s secs)
  show ?case
    by (simp add: lookup_tense_parse_section lookup_tense_foldl snoc last_table_append
        split: option.splits)
qed

text \<open>
  Claim C10. For every mood and tense name, what the parsed table holds under that
  mood and tense is the (reordered) person-to-form mapping of the last table read
  with that mood and that tense name, and nothing if no table was read with them:
  a later table replaces an earlier one entirely, in the same section or in a
  repeated section of the mood.
\<close>

theorem parse_conjugations_last_table:
  "lookup_tense (parse_conjugations lower sp) mood tense =
     (case last_table (tables_read lower sp) mood tense of
        None \<Rightarrow> None
      | Some tm \<Rightarrow> Some (ordered_tense_map tm mood tense))"
proof -
  have "tables_read lower sp = concat (map (section_tables lower) (aa_sections sp))"
    by (simp add: tables_read_def section_tables_def cong: map_cong)
  moreover have "lookup_tense [] mood tense = None" by (simp add: lookup_tense_def)
  ultimately show ?thesis
    by (simp add: parse_conjugations_def lookup_tense_sections split: option.splits)
qed


text \<open>
  An example: two sections of the mood \<open>indicativo\<close>, each with a table named
  \<open>presente\<close>; the entry for \<open>tu\<close> of the earlier table is gone.
\<close>

lemma parse_conjugations_replaces:
  "parse_conjugations ascii_lower
     \<lparr>h3 = None, conjtable = None, aa_sections =
       [\<lparr>mood_h4 = Some (Tag (ustr ''h4'') [] [Text (ustr ''Indicativo'')]),
         neoConj =
          [\<lparr>header_tr = Some \<lparr>th_col = Some (Tag (ustr ''th'') []
               [Text (ustr ''presente''),
                Tag (ustr ''span'') [ustr ''arrow''] [Text (ustr ''v'')]])\<rparr>,
            body_trs =
             [\<lparr>th_row = Some (Tag (ustr ''th'') [] [Text (ustr ''io'')]),
               td_cell = Some (Tag (ustr ''td'') [] [Text (ustr ''parlo'')])\<rparr>,
              \<lparr>th_row = Some (Tag (ustr ''th'') [] [Text (ustr ''tu'')]),
               td_cell = Some (Tag (ustr ''td'') [] [Text (ustr ''parli'')])\<rparr>]\<rparr>]\<rparr>,
        \<lparr>mood_h4 = Some (Tag (ustr ''h4'') [] [Text (ustr ''indicativo'')]),
         neoConj =
          [\<lparr>header_tr = Some \<lparr>th_col = Some (Tag (ustr ''th'') []
               [Text (ustr ''Presente'')])\<rparr>,
            body_trs =
             [\<lparr>th_row = Some (Tag (ustr ''th'') [] [Text (ustr ''io'')]),
               td_cell = Some (Tag (ustr ''td'') [] [Text (ustr ''parlavo'')])\<rparr>]\<rparr>]\<rparr>]\<rparr>
   = [(ustr ''indicativo'', [(ustr ''presente'', [(ustr ''io'', ustr ''parlavo'')])])]"
  by (simp add: parse_conjugations_def parse_section_def set_tense_def tense_of_def
      tense_map_of_def ordered_tense_map_def desired_order_def PERSON_ORDER_DEFAULT_def
      get_text_strip_def get_text_def norm_spaces_def strip_def replace_char_def isspace_def
      ascii_lower_def dict_get_def keys_def ustr.simps)

section \<open>Properties of the Principal-Forms Parser\<close>














section \<open>Properties of narrowing\<close>








subsection \<open>Selecting every key\<close>









subsection \<open>Selecting no key\<close>







subsection \<open>The order of the keys\<close>








section \<open>Properties of the Document Fetcher\<close>

lemma requests_made_append: "requests_made (w @ v) = requests_made w + requests_made v"
  by (simp add: requests_made_def)

lemma sleeps_append: "sleeps (w @ v) = sleeps w @ sleeps v"
  by (induction w rule: sleeps.induct) auto

lemma requests_made_simps:
  "requests_made [] = 0" "requests_made (Get u t # w) = Suc (requests_made w)"
  "requests_made (Sleep n # w) = requests_made w" "requests_made (Stderr s # w) = requests_made w"
  by (simp_all add: requests_made_def)

lemma fetch_attempts_bounds:
  "requests_made (snd (fetch_attempts nt u t tries a l w)) \<le> requests_made w + nat (tries + 1 - a) \<and>
   (\<exists>ys. prefix ys (map nat [a..tries - 1]) \<and>
         sleeps (snd (fetch_attempts nt u t tries a l w)) = sleeps w @ ys)"
proof (induction nt u t tries a l w rule: fetch_attempts.induct)
  case (1 nt u t tries a l w)
  show ?case
  proof (cases "a > tries")
    case True
    then show ?thesis
      by (cases l) (simp_all add: fetch_attempts.simps[of nt u t tries a])
  next
    case False
    show ?thesis
    proof (cases "nt (requests_made w) u")
      case (Body b)
      with False show ?thesis
        by (simp add: fetch_attempts.simps[of nt u t tries a] requests_made_append
            requests_made_simps sleeps_append)
    next
      case (Failure e)
      let ?w' = "if a < tries then w @ [Get u t, Sleep (nat a)] else w @ [Get u t]"
      let ?r = "fetch_attempts nt u t tries (a + 1) (Some e) ?w'"
      from False Failure have eq: "fetch_attempts nt u t tries a l w = ?r"
        by (simp add: fetch_attempts.simps[of nt u t tries a])
      from "1.IH"[OF False Failure]
      have rq: "requests_made (snd ?r) \<le> requests_made ?w' + nat (tries + 1 - (a + 1))"
        and "\<exists>ys. prefix ys (map nat [a + 1..tries - 1]) \<and> sleeps (snd ?r) = sleeps ?w' @ ys"
        by blast+
      then obtain ys where ys: "prefix ys (map nat [a + 1..tries - 1])"
        "sleeps (snd ?r) = sleeps ?w' @ ys" by blast
      have "requests_made ?w' = requests_made w + 1"
        by (simp add: requests_made_append requests_made_simps)
      with rq False have 1: "requests_made (snd ?r) \<le> requests_made w + nat (tries + 1 - a)"
        by simp
      have 2: "\<exists>zs. prefix zs (map nat [a..tries - 1]) \<and> sleeps (snd ?r) = sleeps w @ zs"
      proof (cases "a < tries")
        case True
        then have "[a..tries - 1] = a # [a + 1..tries - 1]" by (simp add: upto_rec1)
        with ys True have "prefix (nat a # ys) (map nat [a..tries - 1])"
          "sleeps (snd ?r) = sleeps w @ (nat a # ys)"
          by (simp_all add: sleeps_append)
        then show ?thesis by blast
      next
        case False
        with ys have "ys = []" by simp
        with ys False show ?thesis by (simp add: sleeps_append)
      qed
      from 1 2 eq show ?thesis by simp
    qed
  qed
qed

lemma fetch_html_default_cases:
  "fetch_html_default nt u w =
     (case nt (requests_made w) u of
        Body text \<Rightarrow> (Inr text, w @ [Get u 20])
      | Failure e1 \<Rightarrow>
          (case nt (requests_made w + 1) u of
             Body text \<Rightarrow> (Inr text, w @ [Get u 20, Sleep 1, Get u 20])
           | Failure e2 \<Rightarrow> (Inl (RequestException e2), w @ [Get u 20, Sleep 1, Get u 20])))"
  by (simp add: fetch_html_default_def fetch_html_def fetch_attempts.simps[of nt u 20 2]
      requests_made_append requests_made_simps split: response.splits)

text \<open>
  Claim C9. With its defaults (the only way the program calls it) \<open>fetch_html\<close> makes
  one request and returns the body if that succeeds; otherwise it sleeps one second
  and makes a second request, returning its body if it succeeds and otherwise failing
  with the \<open>RequestException\<close> of the second request and its message: at most two
  requests, one after the other. For any number of tries, no more than that many
  requests are made and the sleeps taken are, in this order, 1, 2, ... seconds: the
  \<open>n\<close>-th retry comes after a wait of \<open>n\<close>.
\<close>

theorem fetch_html_attempts:
  "fetch_html_default nt u w =
     (case nt (requests_made w) u of
        Body text \<Rightarrow> (Inr text, w @ [Get u 20])
      | Failure e1 \<Rightarrow>
          (case nt (requests_made w + 1) u of
             Body text \<Rightarrow> (Inr text, w @ [Get u 20, Sleep 1, Get u 20])
           | Failure e2 \<Rightarrow> (Inl (RequestException e2), w @ [Get u 20, Sleep 1, Get u 20]))) \<and>
   requests_made (snd (fetch_html_default nt u w)) \<le> requests_made w + 2 \<and>
   requests_made (snd (fetch_html nt u t tries w)) \<le> requests_made w + nat tries \<and>
   prefix (sleeps (snd (fetch_html nt u t tries w))) (sleeps w @ map nat [1..tries - 1])"
proof -
  from fetch_attempts_bounds[of nt u t tries 1 None w]
  have 1: "requests_made (snd (fetch_html nt u t tries w)) \<le> requests_made w + nat tries"
    and 2: "prefix (sleeps (snd (fetch_html nt u t tries w))) (sleeps w @ map nat [1..tries - 1])"
    by (auto simp: fetch_html_def)
  from fetch_attempts_bounds[of nt u 20 2 1 None w]
  have 3: "requests_made (snd (fetch_html_default nt u w)) \<le> requests_made w + 2"
    by (simp add: fetch_html_default_def fetch_html_def)
  from 1 2 3 fetch_html_default_cases[of nt u w] show ?thesis by simp
qed

section \<open>Properties of the orchestrator and of the validator\<close>

text \<open>
  Claim C5. For every verb that is empty after trimming, \<open>scrape_conjugations\<close> fails
  with the \<open>ValueError\<close> of \<open>build_url\<close> and leaves the world as it was: no
  request is made, nothing is retried.
\<close>

theorem scrape_conjugations_empty_verb:
  assumes "strip verb = []"
  shows "scrape_conjugations rt verb w = (Inl (ValueError (ustr ''Empty verb provided.'')), w)"
  using assms by (simp add: scrape_conjugations_def build_url_def)

text \<open>The empty verb and the verb of three spaces.\<close>

theorem scrape_conjugations_blank:
  "strip (ustr ''   '') = [] \<and> strip [] = [] \<and>
   scrape_conjugations (parlare_runtime False) (ustr ''   '') []
     = (Inl (ValueError (ustr ''Empty verb provided.'')), []) \<and>
   scrape_conjugations (parlare_runtime False) [] []
     = (Inl (ValueError (ustr ''Empty verb provided.'')), []) \<and>
   requests_made (snd (scrape_conjugations (parlare_runtime False) (ustr ''   '') [])) = 0"
proof -
  have 1: "strip (ustr ''   '') = []" by (simp add: strip_def isspace_def ustr.simps)
  have 2: "strip [] = []" by (simp add: strip_def)
  from scrape_conjugations_empty_verb[OF 1, of "parlare_runtime False" "[]"]
    scrape_conjugations_empty_verb[OF 2, of "parlare_runtime False" "[]"] 1 2
  show ?thesis by (simp add: requests_made_def)
qed

lemma check_expected_cases:
  "check_expected strict c w =
     (if missing_messages c = [] then (Inr (), w)
      else if strict then (Inl (AssertionError (join (ustr '' | '') (missing_messages c))), w)
      else (Inr (), w @ [Stderr (ustr ''[WARN] '' @ join (ustr '' | '') (missing_messages c))]))"
  by (simp add: check_expected_def Let_def)

lemma foldl_append_concat: "foldl (\<lambda>acc x. acc @ g x) a xs = a @ concat (map g xs)"
  by (induction xs arbitrary: a) auto

lemma missing_messages_concat: "missing_messages c = concat (map (mood_messages c) EXPECTED)"
proof -
  have "(\<lambda>missing (mood, tenses).
              if mood \<notin> set (keys c) then missing @ [ustr ''Missing mood: '' @ mood]
              else (let got = set (keys (dict_get c mood []));
                        diff = filter (\<lambda>t. t \<notin> got) tenses
                    in if diff \<noteq> [] then
                         missing @ [ustr ''Missing tense(s) in '' @ mood @ ustr '': '' @
                                    join (ustr '', '') (sort diff)]
                       else missing))
        = (\<lambda>acc x. acc @ mood_messages c x)"
    by (auto simp: fun_eq_iff mood_messages_def Let_def)
  then show ?thesis
    by (simp add: missing_messages_def foldl_append_concat)
qed

lemma missing_messages_Nil_iff: "missing_messages c = [] \<longleftrightarrow> covers_expected c"
proof -
  have "mood_messages c x = [] \<longleftrightarrow>
        (case x of (mood, tenses) \<Rightarrow> mood \<in> set (keys c) \<and>
                 list_all (\<lambda>t. t \<in> set (keys (dict_get c mood []))) tenses)" for x
    by (cases x) (auto simp: mood_messages_def filter_empty_conv list_all_iff)
  then show ?thesis
    by (simp add: missing_messages_concat covers_expected_def list_all_iff)
qed

text \<open>
  Claim C8. The validator fails exactly when the setting is strict and an expected
  mood or tense is missing from the table; the configured setting is not strict.
  When the URL is built and the page is fetched, the scrape under the non-strict
  setting returns the result put together from what was parsed, whatever is missing,
  and the messages, if any, go to standard error and nowhere into the result (which
  has the six fields of \<open>scrape_result\<close>); under the strict setting, with something
  missing, the scrape fails with the messages in an \<open>AssertionError\<close>.
\<close>

theorem check_expected_strict_only:
  "isl (fst (check_expected strict c w)) = (strict \<and> \<not> covers_expected c) \<and>
   (missing_messages c = []) = covers_expected c \<and>
   \<not> STRICT_CHECKS \<and>
   (build_url (quote_plus rt) verb = Inr u \<and> fetch_html_default (net rt) u w = (Inr html, w1) \<longrightarrow>
      (\<not> strict_checks rt \<longrightarrow>
         scrape_conjugations rt verb w =
           (Inr (assemble rt verb u html),
            if missing_messages (conjugations (assemble rt verb u html)) = [] then w1
            else w1 @ [Stderr (ustr ''[WARN] '' @ join (ustr '' | '')
                        (missing_messages (conjugations (assemble rt verb u html))))])) \<and>
      (strict_checks rt \<and> missing_messages (conjugations (assemble rt verb u html)) \<noteq> [] \<longrightarrow>
         scrape_conjugations rt verb w =
           (Inl (AssertionError (join (ustr '' | '')
                   (missing_messages (conjugations (assemble rt verb u html))))), w1)))"
proof -
  have 1: "isl (fst (check_expected strict c w)) = (strict \<and> \<not> covers_expected c)"
    by (simp add: check_expected_cases missing_messages_Nil_iff)
  have 2: "\<not> STRICT_CHECKS" by (simp add: STRICT_CHECKS_def)
  have 3: "build_url (quote_plus rt) verb = Inr u \<and> fetch_html_default (net rt) u w = (Inr html, w1) \<longrightarrow>
      (\<not> strict_checks rt \<longrightarrow>
         scrape_conjugations rt verb w =
           (Inr (assemble rt verb u html),
            if missing_messages (conjugations (assemble rt verb u html)) = [] then w1
            else w1 @ [Stderr (ustr ''[WARN] '' @ join (ustr '' | '')
                        (missing_messages (conjugations (assemble rt verb u html))))])) \<and>
      (strict_checks rt \<and> missing_messages (conjugations (assemble rt verb u html)) \<noteq> [] \<longrightarrow>
         scrape_conjugations rt verb w =
           (Inl (AssertionError (join (ustr '' | '')
                   (missing_messages (conjugations (assemble rt verb u html))))), w1))"
    by (auto simp: check_expected_cases scrape_conjugations_def assemble_def Let_def)
  from 1 2 3 missing_messages_Nil_iff[of c] show ?thesis by blast
qed


lemma parse_conjugations_parlo_page:
  "parse_conjugations ascii_lower parlo_page
     = [(ustr ''indicativo'', [(ustr ''presente'', [(ustr ''io'', ustr ''parlo'')])])]"
  by (simp add: parlo_page_def parse_conjugations_def parse_section_def set_tense_def tense_of_def
      tense_map_of_def ordered_tense_map_def desired_order_def PERSON_ORDER_DEFAULT_def
      get_text_strip_def get_text_def norm_spaces_def strip_def replace_char_def isspace_def
      ascii_lower_def dict_get_def keys_def ustr.simps)

lemma not_covers_parlo:
  "\<not> covers_expected [(ustr ''indicativo'', [(ustr ''presente'', [(ustr ''io'', ustr ''parlo'')])])]"
  by (simp add: covers_expected_def EXPECTED_def keys_def dict_get_def ustr.simps)

text \<open>
  The scenario of the specification: the verb \<open>parlare\<close> and a page with
  \<open>indicativo\<close>, \<open>presente\<close>, \<open>io\<close>, \<open>parlo\<close> only. Four moods and three tenses
  are missing; the scrape completes under the non-strict setting, with no auxiliary,
  and fails under the strict one.
\<close>

theorem scrape_conjugations_parlare:
  "build_url (quote_plus (parlare_runtime False)) (ustr ''parlare'') = Inr (BASE @ ustr ''?v=parlare'') \<and>
   fetch_html_default (net (parlare_runtime False)) (BASE @ ustr ''?v=parlare'') []
     = (Inr (ustr ''<html></html>''), [Get (BASE @ ustr ''?v=parlare'') 20]) \<and>
   \<not> strict_checks (parlare_runtime False) \<and> strict_checks (parlare_runtime True) \<and>
   \<not> covers_expected [(ustr ''indicativo'', [(ustr ''presente'', [(ustr ''io'', ustr ''parlo'')])])] \<and>
   conjugations (assemble (parlare_runtime False) (ustr ''parlare'') (BASE @ ustr ''?v=parlare'')
       (ustr ''<html></html>''))
     = [(ustr ''indicativo'', [(ustr ''presente'', [(ustr ''io'', ustr ''parlo'')])])] \<and>
   auxiliary (assemble (parlare_runtime False) (ustr ''parlare'') (BASE @ ustr ''?v=parlare'')
       (ustr ''<html></html>'')) = None \<and>
   fst (scrape_conjugations (parlare_runtime False) (ustr ''parlare'') [])
     = Inr (assemble (parlare_runtime False) (ustr ''parlare'') (BASE @ ustr ''?v=parlare'')
         (ustr ''<html></html>'')) \<and>
   isl (fst (scrape_conjugations (parlare_runtime True) (ustr ''parlare'') []))"
proof -
  let ?u = "BASE @ ustr ''?v=parlare''"
  let ?html = "ustr ''<html></html>''"
  let ?c = "[(ustr ''indicativo'', [(ustr ''presente'', [(ustr ''io'', ustr ''parlo'')])])]"
  have b: "build_url (quote_plus (parlare_runtime strict)) (ustr ''parlare'') = Inr ?u" for strict
    by (simp add: build_url_def parlare_runtime_def strip_def isspace_def ustr.simps)
  have f: "fetch_html_default (net (parlare_runtime strict)) ?u [] = (Inr ?html, [Get ?u 20])"
    for strict
    by (simp add: fetch_html_default_def fetch_html_def fetch_attempts.simps[of _ _ 20 2 1]
        parlare_runtime_def)
  have c: "conjugations (assemble (parlare_runtime strict) (ustr ''parlare'') ?u ?html) = ?c"
    for strict
    by (simp add: assemble_def parlare_runtime_def parse_conjugations_parlo_page)
  have a: "auxiliary (assemble (parlare_runtime False) (ustr ''parlare'') ?u ?html) = None"
    by (simp add: assemble_def parlare_runtime_def parse_conjugations_parlo_page
        detect_auxiliary_def dict_get_def startswith_def ESSERE_PREFIXES_def AVERE_PREFIXES_def
        ascii_lower_def ustr.simps)
  have s: "\<not> strict_checks (parlare_runtime False)" "strict_checks (parlare_runtime True)"
    by (simp_all add: parlare_runtime_def)
  note t = check_expected_strict_only[where c = ?c and w = "[]" and verb = "ustr ''parlare''"
      and u = ?u and html = ?html and ?w1.0 = "[Get ?u 20]"]
  from t[where strict = False and rt = "parlare_runtime False"] have m: "missing_messages ?c \<noteq> []"
    using not_covers_parlo by blast
  from t[where strict = False and rt = "parlare_runtime False"] b[of False] f[of False] s(1)
  have 1: "fst (scrape_conjugations (parlare_runtime False) (ustr ''parlare'') [])
     = Inr (assemble (parlare_runtime False) (ustr ''parlare'') ?u ?html)"
    by simp
  from t[where strict = True and rt = "parlare_runtime True"] b[of True] f[of True] s(2) m c[of True]
  have 2: "isl (fst (scrape_conjugations (parlare_runtime True) (ustr ''parlare'') []))"
    by simp
  from 1 2 b[of False] f[of False] s c[of False] a not_covers_parlo show ?thesis by blast
qed

end
